theory Spec2Isabelle
  imports Main "HOL-Library.Word"
begin

section \<open>Data model of \<open>main.go\<close>\<close>

text \<open>
  The program serves the latest frame of a V4L2 capture device over HTTP. Its shared
  state is two package-level variables (\<open>mutex\<close>, \<open>jpegLen\<close>) and one memory-mapped
  buffer \<open>data\<close> that the device fills. Everything the kernel answers (the result of
  \<open>Select\<close> and of each \<open>ioctl\<close>) is an input of the model.
\<close>

type_synonym byte = "8 word"
type_synonym uint32 = "32 word"

text \<open>\<open>syscall.Errno\<close>: an unsigned number, \<open>0\<close> meaning success.\<close>
type_synonym errno = nat

text \<open>A Go \<open>error\<close> value: \<open>None\<close> is \<open>nil\<close>.\<close>
type_synonym error = "errno option"

definition V4L2_BUF_TYPE_VIDEO_CAPTURE :: uint32 where
  "V4L2_BUF_TYPE_VIDEO_CAPTURE = 1"

definition V4L2_MEMORY_MMAP :: uint32 where
  "V4L2_MEMORY_MMAP = 1"

text \<open>
  \<open>struct v4l2_buffer\<close>, the scalar fields (the time stamp, the time code and the
  reserved words are never read or written by the program). The fields \<open>typ\<close> and
  \<open>length\<close> of the source are \<open>buf_type\<close> and \<open>buf_length\<close> here.
\<close>

record v4l2_buffer =
  index :: uint32
  buf_type :: uint32
  bytesused :: uint32
  flags :: uint32
  field :: uint32
  sequence :: uint32
  memory :: uint32
  offset :: uint32
  buf_length :: uint32

text \<open>The composite literal \<open>v4l2_buffer{typ: ..., memory: ..., index: 0}\<close>: every other
  field has Go's zero value.\<close>

definition new_v4l2_buffer :: v4l2_buffer where
  "new_v4l2_buffer =
     \<lparr>index = 0, buf_type = V4L2_BUF_TYPE_VIDEO_CAPTURE, bytesused = 0, flags = 0, field = 0,
      sequence = 0, memory = V4L2_MEMORY_MMAP, offset = 0, buf_length = 0\<rparr>"

subsection \<open>\<open>sync.RWMutex\<close>\<close>

text \<open>
  The lock is held either by one writer or by a number of readers. An acquire that
  would have to wait gives \<open>None\<close>: the caller makes no step until the lock allows it.
  (Go also holds new readers back while a writer waits; that only removes
  interleavings.) Releasing a lock that is not held is a fatal error in Go, \<open>None\<close>
  here.
\<close>

record rwmutex =
  writer :: bool
  readers :: nat

definition RLock :: "rwmutex \<Rightarrow> rwmutex option" where
  "RLock m = (if writer m then None else Some (m\<lparr>readers := readers m + 1\<rparr>))"

definition RUnlock :: "rwmutex \<Rightarrow> rwmutex option" where
  "RUnlock m = (if readers m = 0 then None else Some (m\<lparr>readers := readers m - 1\<rparr>))"

definition Lock :: "rwmutex \<Rightarrow> rwmutex option" where
  "Lock m = (if writer m \<or> 0 < readers m then None else Some (m\<lparr>writer := True\<rparr>))"

definition Unlock :: "rwmutex \<Rightarrow> rwmutex option" where
  "Unlock m = (if writer m then Some (m\<lparr>writer := False\<rparr>) else None)"

subsection \<open>The package-level variables\<close>

record globals =
  mutex :: rwmutex
  jpegLen :: uint32

text \<open>Go's zero values: an unlocked mutex and \<open>jpegLen = 0\<close>.\<close>

definition init_globals :: globals where
  "init_globals = \<lparr>mutex = \<lparr>writer = False, readers = 0\<rparr>, jpegLen = 0\<rparr>"

subsection \<open>\<open>http.ResponseWriter\<close>\<close>

text \<open>
  The header map, and what has gone to the client: the first \<open>Write\<close> sends status
  200 with the headers set so far, then the bytes.
\<close>

record response_writer =
  header :: "string \<rightharpoonup> string list"
  status :: "nat option"
  sent_header :: "string \<rightharpoonup> string list"
  body :: "byte list"

definition new_response_writer :: response_writer where
  "new_response_writer =
     \<lparr>header = Map.empty, status = None, sent_header = Map.empty, body = []\<rparr>"

definition Header_Set :: "string \<Rightarrow> string \<Rightarrow> response_writer \<Rightarrow> response_writer" where
  "Header_Set k v w = w\<lparr>header := (header w)(k \<mapsto> [v])\<rparr>"

definition Write :: "byte list \<Rightarrow> response_writer \<Rightarrow> response_writer" where
  "Write bs w =
     (case status w of
        None \<Rightarrow> w\<lparr>status := Some 200, sent_header := header w, body := body w @ bs\<rparr>
      | Some _ \<Rightarrow> w\<lparr>body := body w @ bs\<rparr>)"

section \<open>\<open>getJPEG\<close>\<close>

text \<open>
  The slice expression \<open>data[:n]\<close>. \<open>data\<close> is what \<open>unix.Mmap\<close> returned, a slice
  whose capacity is its length, so the expression panics exactly when \<open>n\<close> exceeds the
  length.
\<close>

definition slice_to :: "byte list \<Rightarrow> uint32 \<Rightarrow> byte list option" where
  "slice_to data n = (if unat n \<le> length data then Some (take (unat n) data) else None)"

text \<open>
  A handler either returns or panics (the HTTP server recovers the panic and drops the
  connection); the deferred \<open>RUnlock\<close> runs in both cases.
\<close>

datatype completion = Return | Panic | Fatal

text \<open>
  One run of the handler, with nothing interleaved, on the bytes \<open>data\<close> that the
  mapped buffer holds at that moment. \<open>None\<close>: the handler waits in \<open>RLock\<close>.
\<close>

definition unlock_after :: "completion \<Rightarrow> response_writer \<Rightarrow> globals
    \<Rightarrow> completion \<times> response_writer \<times> globals" where
  "unlock_after c w g =
     (case RUnlock (mutex g) of
        None \<Rightarrow> (Fatal, w, g)
      | Some m \<Rightarrow> (c, w, g\<lparr>mutex := m\<rparr>))"

definition getJPEG :: "byte list \<Rightarrow> response_writer \<Rightarrow> globals
    \<Rightarrow> (completion \<times> response_writer \<times> globals) option" where
  "getJPEG data w g =
     (case RLock (mutex g) of
        None \<Rightarrow> None
      | Some m \<Rightarrow>
          let g1 = g\<lparr>mutex := m\<rparr>;
              w1 = Header_Set ''Cache-Control'' ''no-store'' w
          in (case slice_to data (jpegLen g1) of
                None \<Rightarrow> Some (unlock_after Panic w1 g1)
              | Some bs \<Rightarrow> Some (unlock_after Return (Write bs w1) g1)))"

section \<open>\<open>framePump\<close>\<close>

text \<open>
  What the kernel answers during one pass of the loop: the error of \<open>unix.Select\<close>
  (\<open>None\<close>: a frame is ready), the \<open>VIDIOC_DQBUF\<close> request (its errno and the
  structure as the kernel leaves it) and the errno of the \<open>VIDIOC_QBUF\<close> request. The
  descriptor set handed to \<open>Select\<close> (lines 130 to 133) is not modelled. The loop
  never reads or writes \<open>data\<close>: the bytes of a frame are the device's business.
\<close>

record iteration =
  select_err :: error
  dqbuf :: "v4l2_buffer \<Rightarrow> errno \<times> v4l2_buffer"
  qbuf :: "v4l2_buffer \<Rightarrow> errno"

text \<open>
  Where the goroutine is once the kernel's answers are used up: waiting in \<open>Select\<close>,
  waiting in \<open>mutex.Lock\<close>, returned with an error value, or stopped by the runtime
  (an \<open>Unlock\<close> of an unlocked mutex).
\<close>

datatype pump_outcome = InSelect | InLock | Returned error | Crashed

fun framePump :: "iteration list \<Rightarrow> globals \<Rightarrow> pump_outcome \<times> globals" where
  "framePump [] g = (InSelect, g)"
| "framePump (k # ks) g =
     (case select_err k of
        Some err \<Rightarrow> (Returned (Some err), g)
      | None \<Rightarrow>
          (case Lock (mutex g) of
             None \<Rightarrow> (InLock, g)
           | Some m \<Rightarrow>
               let g1 = g\<lparr>mutex := m\<rparr>;
                   (errno, qb) = dqbuf k new_v4l2_buffer
               in if errno \<noteq> 0
                  then (case Unlock (mutex g1) of
                          None \<Rightarrow> (Crashed, g1)
                        | Some m' \<Rightarrow> (Returned (Some errno), g1\<lparr>mutex := m'\<rparr>))
                  else
                    let g2 = g1\<lparr>jpegLen := bytesused qb\<rparr>
                    in (case Unlock (mutex g2) of
                          None \<Rightarrow> (Crashed, g2)
                        | Some m' \<Rightarrow>
                            let g3 = g2\<lparr>mutex := m'\<rparr>;
                                errno' = qbuf k qb
                            in if errno' \<noteq> 0
                               then (Returned (Some errno'), g3)
                               else framePump ks g3)))"

text \<open>Vocabulary for the kernel's answers of one pass.\<close>

definition dq_errno :: "iteration \<Rightarrow> errno" where
  "dq_errno k = fst (dqbuf k new_v4l2_buffer)"

definition dq_bytesused :: "iteration \<Rightarrow> uint32" where
  "dq_bytesused k = bytesused (snd (dqbuf k new_v4l2_buffer))"

definition q_errno :: "iteration \<Rightarrow> errno" where
  "q_errno k = qbuf k (snd (dqbuf k new_v4l2_buffer))"

definition succeeds :: "iteration \<Rightarrow> bool" where
  "succeeds k \<longleftrightarrow> select_err k = None \<and> dq_errno k = 0 \<and> q_errno k = 0"

definition unlocked :: "globals \<Rightarrow> bool" where
  "unlocked g \<longleftrightarrow> \<not> writer (mutex g) \<and> readers (mutex g) = 0"

text \<open>The error a pass that does not succeed runs into first.\<close>

definition failure :: "iteration \<Rightarrow> errno" where
  "failure k =
     (case select_err k of
        Some e \<Rightarrow> e
      | None \<Rightarrow> if dq_errno k \<noteq> 0 then dq_errno k else q_errno k)"

text \<open>The length reported by the last pass of a list, \<open>n\<close> for the empty list.\<close>

definition stored :: "uint32 \<Rightarrow> iteration list \<Rightarrow> uint32" where
  "stored n ks = (if ks = [] then n else dq_bytesused (last ks))"

text \<open>The answers do not let the loop reach its first assignment to \<open>jpegLen\<close>.\<close>

definition no_update_yet :: "iteration list \<Rightarrow> bool" where
  "no_update_yet ks \<longleftrightarrow>
     (case ks of [] \<Rightarrow> True | k # _ \<Rightarrow> select_err k \<noteq> None \<or> dq_errno k \<noteq> 0)"

section \<open>\<open>main\<close>\<close>

text \<open>
  The kernel's answers to the requests of \<open>main\<close> before the server starts, in the
  order of the source. The arguments of the requests (the format, the buffer count) do
  not appear: no answer is computed from them here.
\<close>

record startup =
  open_reply :: "int \<times> error"
  s_fmt_errno :: errno
  reqbufs_errno :: errno
  querybuf_reply :: "errno \<times> v4l2_buffer"
  mmap_reply :: "byte list \<times> error"
  qbuf_errno :: errno
  streamon_errno :: errno

text \<open>
  The calls registered with \<open>defer\<close>: \<open>unix.Close(dev)\<close>, \<open>unix.Munmap(data)\<close> and
  the closure of lines 285 to 295, which issues \<open>VIDIOC_STREAMOFF\<close>. Go runs them when
  \<open>main\<close> returns or panics; \<open>main\<close> does neither (it ends in \<open>log.Fatal\<close>), so the
  model keeps them on their stack and gives them no body.
\<close>

datatype deferred = Close int | Munmap | StreamOff int

text \<open>
  The process: what \<open>log.Fatal\<close> has printed (its arguments), the exit status
  (\<open>None\<close>: running), the stack of deferred calls (the head was registered last), the
  mapped buffer, the goroutine started by \<open>go framePump(dev)\<close> and the package-level
  variables.
\<close>

record process =
  logged :: "(string \<times> errno) list"
  exit_code :: "nat option"
  defers :: "deferred list"
  mapped :: "byte list"
  pump :: "pump_outcome option"
  vars :: globals

definition new_process :: process where
  "new_process =
     \<lparr>logged = [], exit_code = None, defers = [], mapped = [], pump = None,
      vars = init_globals\<rparr>"

text \<open>\<open>log.Fatal\<close> prints and calls \<open>os.Exit(1)\<close>: the deferred calls do not run.\<close>

definition log_Fatal :: "string \<Rightarrow> errno \<Rightarrow> process \<Rightarrow> process" where
  "log_Fatal msg e p = p\<lparr>logged := logged p @ [(msg, e)], exit_code := Some 1\<rparr>"

definition defer_call :: "deferred \<Rightarrow> process \<Rightarrow> process" where
  "defer_call d p = p\<lparr>defers := d # defers p\<rparr>"

text \<open>
  \<open>go framePump(dev)\<close> starts the loop as a goroutine; a \<open>go\<close> statement discards
  what the function returns. The model records where the goroutine is and takes over
  the variables it has written; the answers \<open>ks\<close> are those the kernel gives it.
\<close>

definition go_framePump :: "iteration list \<Rightarrow> process \<Rightarrow> process" where
  "go_framePump ks p =
     (let (out, g) = framePump ks (vars p) in p\<lparr>pump := Some out, vars := g\<rparr>)"

text \<open>
  \<open>main\<close>, up to the moment \<open>http.ListenAndServe\<close> returns (\<open>lis = Some err\<close>) or
  while it is still serving (\<open>lis = None\<close>).
\<close>

definition main :: "startup \<Rightarrow> iteration list \<Rightarrow> errno option \<Rightarrow> process" where
  "main st ks lis =
     (case open_reply st of
        (dev, Some err) \<Rightarrow> log_Fatal ''Open: '' err new_process
      | (dev, None) \<Rightarrow>
          let p1 = defer_call (Close dev) new_process in
          if s_fmt_errno st \<noteq> 0 then log_Fatal ''Set format: '' (s_fmt_errno st) p1
          else if reqbufs_errno st \<noteq> 0
            then log_Fatal ''Request buffer: '' (reqbufs_errno st) p1
          else if fst (querybuf_reply st) \<noteq> 0
            then log_Fatal ''Query buffer: '' (fst (querybuf_reply st)) p1
          else
            (case mmap_reply st of
               (data, Some err) \<Rightarrow> log_Fatal [] err p1
             | (data, None) \<Rightarrow>
                 let p2 = defer_call Munmap (p1\<lparr>mapped := data\<rparr>) in
                 if qbuf_errno st \<noteq> 0 then log_Fatal ''qbuf: '' (qbuf_errno st) p2
                 else if streamon_errno st \<noteq> 0
                   then log_Fatal ''Start stream: '' (streamon_errno st) p2
                 else
                   let p3 = go_framePump ks p2;
                       p4 = defer_call (StreamOff dev) p3
                   in (case lis of
                         None \<Rightarrow> p4
                       | Some err \<Rightarrow> log_Fatal [] err p4)))"

text \<open>The startup requests all succeed.\<close>

definition startup_ok :: "startup \<Rightarrow> bool" where
  "startup_ok st \<longleftrightarrow>
     snd (open_reply st) = None \<and> s_fmt_errno st = 0 \<and> reqbufs_errno st = 0 \<and>
     fst (querybuf_reply st) = 0 \<and> snd (mmap_reply st) = None \<and> qbuf_errno st = 0 \<and>
     streamon_errno st = 0"

section \<open>The goroutines, step by step\<close>

text \<open>
  \<open>framePump\<close> runs as one goroutine and every request runs its handler in a
  goroutine of its own. Here each statement of the two functions is one step and the
  steps of different goroutines interleave.

  The device takes steps too. \<open>data\<close> is the device's buffer itself, mapped shared
  and writable (\<open>unix.Mmap\<close> with \<open>MAP_SHARED\<close>); \<open>VIDIOC_QBUF\<close> hands it to the
  driver and \<open>VIDIOC_DQBUF\<close> takes it back. While the buffer is queued (\<open>armed\<close>:
  after a successful enqueue, until the next successful dequeue) the hardware may write
  any byte of it at any time; while it is dequeued the hardware does not touch it. What
  the requests answer is left open, as in the functions above: any errno, any
  \<open>bytesused\<close>.
\<close>

text \<open>Where \<open>framePump\<close> is: the statement it executes next.\<close>

datatype pump_pc =
    AtSelect | AtLock | AtDqbuf | AtUnlockErr errno | AtStore | AtUnlock | AtQbuf
  | Stopped pump_outcome

text \<open>
  Where a handler is. The argument of \<open>w.Write\<close> is evaluated before the call:
  \<open>AtWrite n\<close> holds the length of the slice \<open>data[:jpegLen]\<close>, whose bytes are read
  from the mapped memory when \<open>Write\<close> copies them.
\<close>

datatype handler_pc =
    AtRLock | AtHeaderSet | AtSlice | AtWrite nat | AtRUnlock completion
  | Finished completion

record handler =
  hpc :: handler_pc
  hw :: response_writer

record system =
  shared :: globals
  buffer :: "byte list"
  armed :: bool
  ppc :: pump_pc
  pqbuf :: v4l2_buffer
  handlers :: "handler list"

text \<open>
  The state \<open>main\<close> leaves behind when it starts the goroutine: the buffer mapped and
  queued, the stream on, nothing locked, no frame length stored.
\<close>

definition init_system :: "byte list \<Rightarrow> system" where
  "init_system data =
     \<lparr>shared = init_globals, buffer = data, armed = True, ppc = AtSelect,
      pqbuf = new_v4l2_buffer, handlers = []\<rparr>"

datatype event =
    EvHardware nat byte
  | EvSelect error
  | EvLock
  | EvDqbuf errno v4l2_buffer
  | EvUnlockErr
  | EvStore
  | EvUnlock
  | EvQbuf errno
  | EvRequest
  | EvRLock nat
  | EvHeaderSet nat
  | EvSlice nat
  | EvWrite nat
  | EvRUnlock nat

definition set_mutex :: "rwmutex \<Rightarrow> system \<Rightarrow> system" where
  "set_mutex m s = s\<lparr>shared := (shared s)\<lparr>mutex := m\<rparr>\<rparr>"

definition set_handler :: "nat \<Rightarrow> handler \<Rightarrow> system \<Rightarrow> system" where
  "set_handler i h s = s\<lparr>handlers := (handlers s)[i := h]\<rparr>"

text \<open>The steps of \<open>framePump\<close>, lines 137 to 177. \<open>None\<close>: the step cannot be taken.\<close>

fun pump_step :: "event \<Rightarrow> system \<Rightarrow> system option" where
  "pump_step (EvSelect err) s =
     (if ppc s = AtSelect
      then Some (s\<lparr>ppc := (case err of None \<Rightarrow> AtLock | Some e \<Rightarrow> Stopped (Returned (Some e)))\<rparr>)
      else None)"
| "pump_step EvLock s =
     (if ppc s = AtLock
      then (case Lock (mutex (shared s)) of
              None \<Rightarrow> None
            | Some m \<Rightarrow> Some (set_mutex m (s\<lparr>ppc := AtDqbuf\<rparr>)))
      else None)"
| "pump_step (EvDqbuf errno qb) s =
     (if ppc s = AtDqbuf
      then (if errno \<noteq> 0 then Some (s\<lparr>pqbuf := qb, ppc := AtUnlockErr errno\<rparr>)
            else Some (s\<lparr>pqbuf := qb, armed := False, ppc := AtStore\<rparr>))
      else None)"
| "pump_step EvUnlockErr s =
     (case ppc s of
        AtUnlockErr errno \<Rightarrow>
          (case Unlock (mutex (shared s)) of
             None \<Rightarrow> Some (s\<lparr>ppc := Stopped Crashed\<rparr>)
           | Some m \<Rightarrow> Some (set_mutex m (s\<lparr>ppc := Stopped (Returned (Some errno))\<rparr>)))
      | _ \<Rightarrow> None)"
| "pump_step EvStore s =
     (if ppc s = AtStore
      then Some (s\<lparr>shared := (shared s)\<lparr>jpegLen := bytesused (pqbuf s)\<rparr>, ppc := AtUnlock\<rparr>)
      else None)"
| "pump_step EvUnlock s =
     (if ppc s = AtUnlock
      then (case Unlock (mutex (shared s)) of
              None \<Rightarrow> Some (s\<lparr>ppc := Stopped Crashed\<rparr>)
            | Some m \<Rightarrow> Some (set_mutex m (s\<lparr>ppc := AtQbuf\<rparr>)))
      else None)"
| "pump_step (EvQbuf errno) s =
     (if ppc s = AtQbuf
      then (if errno \<noteq> 0 then Some (s\<lparr>ppc := Stopped (Returned (Some errno))\<rparr>)
            else Some (s\<lparr>armed := True, ppc := AtSelect\<rparr>))
      else None)"
| "pump_step _ s = None"

text \<open>The steps of the handler of request \<open>i\<close>, lines 118 to 122.\<close>

fun handler_step :: "event \<Rightarrow> handler \<Rightarrow> system \<Rightarrow> (handler \<times> system) option" where
  "handler_step (EvRLock i) h s =
     (if hpc h = AtRLock
      then (case RLock (mutex (shared s)) of
              None \<Rightarrow> None
            | Some m \<Rightarrow> Some (h\<lparr>hpc := AtHeaderSet\<rparr>, set_mutex m s))
      else None)"
| "handler_step (EvHeaderSet i) h s =
     (if hpc h = AtHeaderSet
      then Some (h\<lparr>hw := Header_Set ''Cache-Control'' ''no-store'' (hw h), hpc := AtSlice\<rparr>, s)
      else None)"
| "handler_step (EvSlice i) h s =
     (if hpc h = AtSlice
      then (case slice_to (buffer s) (jpegLen (shared s)) of
              None \<Rightarrow> Some (h\<lparr>hpc := AtRUnlock Panic\<rparr>, s)
            | Some bs \<Rightarrow> Some (h\<lparr>hpc := AtWrite (length bs)\<rparr>, s))
      else None)"
| "handler_step (EvWrite i) h s =
     (case hpc h of
        AtWrite n \<Rightarrow> Some (h\<lparr>hw := Write (take n (buffer s)) (hw h), hpc := AtRUnlock Return\<rparr>, s)
      | _ \<Rightarrow> None)"
| "handler_step (EvRUnlock i) h s =
     (case hpc h of
        AtRUnlock c \<Rightarrow>
          (case RUnlock (mutex (shared s)) of
             None \<Rightarrow> Some (h\<lparr>hpc := Finished Fatal\<rparr>, s)
           | Some m \<Rightarrow> Some (h\<lparr>hpc := Finished c\<rparr>, set_mutex m s))
      | _ \<Rightarrow> None)"
| "handler_step _ h s = None"

definition handler_of :: "event \<Rightarrow> nat option" where
  "handler_of e =
     (case e of
        EvRLock i \<Rightarrow> Some i | EvHeaderSet i \<Rightarrow> Some i | EvSlice i \<Rightarrow> Some i
      | EvWrite i \<Rightarrow> Some i | EvRUnlock i \<Rightarrow> Some i | _ \<Rightarrow> None)"

text \<open>
  One step of the whole system: the hardware writes one byte of the queued buffer, a
  request arrives, a handler moves, or \<open>framePump\<close> moves.
\<close>

definition step :: "event \<Rightarrow> system \<Rightarrow> system option" where
  "step e s =
     (case e of
        EvHardware i b \<Rightarrow>
          (if armed s \<and> i < length (buffer s) then Some (s\<lparr>buffer := (buffer s)[i := b]\<rparr>)
           else None)
      | EvRequest \<Rightarrow>
          Some (s\<lparr>handlers := handlers s @ [\<lparr>hpc = AtRLock, hw = new_response_writer\<rparr>]\<rparr>)
      | _ \<Rightarrow>
          (case handler_of e of
             Some i \<Rightarrow>
               (if i < length (handlers s)
                then (case handler_step e (handlers s ! i) s of
                        None \<Rightarrow> None
                      | Some (h, s') \<Rightarrow> Some (set_handler i h s'))
                else None)
           | None \<Rightarrow> pump_step e s))"

fun run :: "event list \<Rightarrow> system \<Rightarrow> system option" where
  "run [] s = Some s"
| "run (e # es) s = (case step e s of None \<Rightarrow> None | Some s' \<Rightarrow> run es s')"

text \<open>The steps of \<open>framePump\<close> among the events of a run, and the handlers that hold the
  read lock.\<close>

definition is_pump_event :: "event \<Rightarrow> bool" where
  "is_pump_event e =
     (case e of
        EvSelect _ \<Rightarrow> True | EvLock \<Rightarrow> True | EvDqbuf _ _ \<Rightarrow> True | EvUnlockErr \<Rightarrow> True
      | EvStore \<Rightarrow> True | EvUnlock \<Rightarrow> True | EvQbuf _ \<Rightarrow> True | _ \<Rightarrow> False)"

definition pump_events :: "event list \<Rightarrow> event list" where
  "pump_events es = filter is_pump_event es"

definition holds_rlock :: "handler \<Rightarrow> bool" where
  "holds_rlock h =
     (case hpc h of
        AtHeaderSet \<Rightarrow> True | AtSlice \<Rightarrow> True | AtWrite _ \<Rightarrow> True | AtRUnlock _ \<Rightarrow> True
      | _ \<Rightarrow> False)"

definition in_critical_section :: "pump_pc \<Rightarrow> bool" where
  "in_critical_section pc =
     (case pc of
        AtDqbuf \<Rightarrow> True | AtUnlockErr _ \<Rightarrow> True | AtStore \<Rightarrow> True | AtUnlock \<Rightarrow> True
      | _ \<Rightarrow> False)"

text \<open>
  The lock as the program uses it: the writer flag is set exactly while \<open>framePump\<close>
  is between \<open>Lock\<close> and \<open>Unlock\<close>, the reader count is the number of handlers between
  \<open>RLock\<close> and \<open>RUnlock\<close>, and no handler is there while \<open>framePump\<close> is.
\<close>

definition lock_inv :: "system \<Rightarrow> bool" where
  "lock_inv s \<longleftrightarrow>
     writer (mutex (shared s)) = in_critical_section (ppc s) \<and>
     readers (mutex (shared s)) = length (filter holds_rlock (handlers s)) \<and>
     (in_critical_section (ppc s) \<longrightarrow> filter holds_rlock (handlers s) = [])"

text \<open>A handler about to copy its slice holds the current \<open>jpegLen\<close> as the length,
  and that length lies within the buffer.\<close>

definition slice_inv :: "system \<Rightarrow> bool" where
  "slice_inv s \<longleftrightarrow>
     (\<forall>h\<in>set (handlers s). \<forall>n. hpc h = AtWrite n \<longrightarrow>
        n = unat (jpegLen (shared s)) \<and> n \<le> length (buffer s))"

text \<open>
  What a handler has done to its response writer: past \<open>Header().Set\<close> the header is
  there; a response that has been sent has status 200 and carries the header; a handler
  past its \<open>Write\<close> has sent one.
\<close>

definition response_inv :: "handler \<Rightarrow> bool" where
  "response_inv h \<longleftrightarrow>
     (hpc h = AtRLock \<or> hpc h = AtHeaderSet \<or>
        header (hw h) ''Cache-Control'' = Some [''no-store'']) \<and>
     (status (hw h) = None \<or>
        status (hw h) = Some 200 \<and> sent_header (hw h) ''Cache-Control'' = Some [''no-store'']) \<and>
     (hpc h = AtRUnlock Return \<or> hpc h = Finished Return \<longrightarrow> status (hw h) = Some 200)"

section \<open>Concrete answers for the examples\<close>

text \<open>A pass in which everything succeeds and the device reports \<open>n\<close> bytes.\<close>

definition pass :: "uint32 \<Rightarrow> iteration" where
  "pass n = \<lparr>select_err = None, dqbuf = (\<lambda>b. (0, b\<lparr>bytesused := n\<rparr>)), qbuf = (\<lambda>b. 0)\<rparr>"

text \<open>Passes in which \<open>Select\<close>, the dequeue or the enqueue fails with errno \<open>e\<close>.\<close>

definition select_fails :: "errno \<Rightarrow> iteration" where
  "select_fails e = \<lparr>select_err = Some e, dqbuf = (\<lambda>b. (0, b)), qbuf = (\<lambda>b. 0)\<rparr>"

definition dqbuf_fails :: "errno \<Rightarrow> iteration" where
  "dqbuf_fails e = \<lparr>select_err = None, dqbuf = (\<lambda>b. (e, b)), qbuf = (\<lambda>b. 0)\<rparr>"

definition qbuf_fails :: "uint32 \<Rightarrow> errno \<Rightarrow> iteration" where
  "qbuf_fails n e =
     \<lparr>select_err = None, dqbuf = (\<lambda>b. (0, b\<lparr>bytesused := n\<rparr>)), qbuf = (\<lambda>b. e)\<rparr>"

text \<open>A startup in which every request succeeds: descriptor 3, a buffer of four bytes.\<close>

definition good_startup :: startup where
  "good_startup =
     \<lparr>open_reply = (3, None), s_fmt_errno = 0, reqbufs_errno = 0,
      querybuf_reply = (0, new_v4l2_buffer\<lparr>buf_length := 4\<rparr>),
      mmap_reply = ([0, 0, 0, 0], None), qbuf_errno = 0, streamon_errno = 0\<rparr>"

text \<open>
  A run from a buffer of three bytes. The device writes the frame \<open>[1, 2]\<close>; one pass
  of \<open>framePump\<close> dequeues it with \<open>bytesused = 2\<close>, stores the length and unlocks; a
  request arrives and its handler takes the read lock, sets the header and evaluates
  \<open>data[:jpegLen]\<close>; \<open>framePump\<close> queues the buffer again; the device writes the
  first byte of the next frame; the handler copies its slice and unlocks.
\<close>

definition torn_run :: "event list" where
  "torn_run =
     [EvHardware 0 1, EvHardware 1 2, EvSelect None, EvLock,
      EvDqbuf 0 (new_v4l2_buffer\<lparr>bytesused := 2\<rparr>), EvStore, EvUnlock,
      EvRequest, EvRLock 0, EvHeaderSet 0, EvSlice 0,
      EvQbuf 0, EvHardware 0 9,
      EvWrite 0, EvRUnlock 0]"

text \<open>
  A run with exactly one update, complete before the request arrives. The device writes
  the frame \<open>[1, 2]\<close>; \<open>framePump\<close> makes one whole pass (dequeue with
  \<open>bytesused = 2\<close>, store, unlock, enqueue) and waits in \<open>Select\<close>; the device, owning the
  buffer again, writes the first byte of the next frame; then a request arrives and its
  handler runs from \<open>RLock\<close> to \<open>RUnlock\<close> without interruption.
\<close>

definition overwritten_run :: "event list" where
  "overwritten_run =
     [EvHardware 0 1, EvHardware 1 2,
      EvSelect None, EvLock, EvDqbuf 0 (new_v4l2_buffer\<lparr>bytesused := 2\<rparr>), EvStore, EvUnlock,
      EvQbuf 0,
      EvHardware 0 9,
      EvRequest, EvRLock 0, EvHeaderSet 0, EvSlice 0, EvWrite 0, EvRUnlock 0]"

text \<open>
  A run in which the loop ends on a failed dequeue. After one whole pass as above
  (frame \<open>[1, 2]\<close>, \<open>bytesused = 2\<close>, the buffer queued again), \<open>Select\<close> returns, the
  loop locks, \<open>VIDIOC_DQBUF\<close> fails with errno 5, the loop unlocks and returns. The
  buffer is still queued: the device writes two bytes of its next frame. Then a request
  arrives and its handler runs without interruption.
\<close>

definition failed_dequeue_run :: "event list" where
  "failed_dequeue_run =
     [EvHardware 0 1, EvHardware 1 2,
      EvSelect None, EvLock, EvDqbuf 0 (new_v4l2_buffer\<lparr>bytesused := 2\<rparr>), EvStore, EvUnlock,
      EvQbuf 0,
      EvSelect None, EvLock, EvDqbuf 5 new_v4l2_buffer, EvUnlockErr,
      EvHardware 0 9, EvHardware 1 9,
      EvRequest, EvRLock 0, EvHeaderSet 0, EvSlice 0, EvWrite 0, EvRUnlock 0]"

section \<open>Lemmas about the handler and the loop\<close>

subsection \<open>The handler\<close>

text \<open>What one run of the handler does, in closed form.\<close>

lemma getJPEG_unlocked:
  assumes "\<not> writer (mutex g)"
  shows "getJPEG data w g =
     Some (if unat (jpegLen g) \<le> length data
           then (Return, Write (take (unat (jpegLen g)) data)
                           (Header_Set ''Cache-Control'' ''no-store'' w), g)
           else (Panic, Header_Set ''Cache-Control'' ''no-store'' w, g))"
  using assms
  by (simp add: getJPEG_def RLock_def RUnlock_def unlock_after_def slice_to_def Let_def)

lemma getJPEG_locked: "writer (mutex g) \<Longrightarrow> getJPEG data w g = None"
  by (simp add: getJPEG_def RLock_def)

subsection \<open>The loop\<close>

lemma unlocked_init: "unlocked init_globals"
  by (simp add: unlocked_def init_globals_def)

lemma unlocked_jpegLen [simp]: "unlocked (g\<lparr>jpegLen := n\<rparr>) = unlocked g"
  by (simp add: unlocked_def)

lemma writer_restore: "\<not> writer m \<Longrightarrow> m\<lparr>writer := False\<rparr> = m"
  by (cases m) simp

lemma framePump_select_err:
  "select_err k = Some e \<Longrightarrow> framePump (k # ks) g = (Returned (Some e), g)"
  by simp

lemma framePump_dqbuf_err:
  assumes "unlocked g" "select_err k = None" "dq_errno k \<noteq> 0"
  shows "framePump (k # ks) g = (Returned (Some (dq_errno k)), g)"
proof (cases "dqbuf k new_v4l2_buffer")
  case (Pair errno qb)
  with assms show ?thesis
    by (simp add: unlocked_def dq_errno_def Lock_def Unlock_def Let_def writer_restore)
qed

lemma framePump_qbuf_err:
  assumes "unlocked g" "select_err k = None" "dq_errno k = 0" "q_errno k \<noteq> 0"
  shows "framePump (k # ks) g = (Returned (Some (q_errno k)), g\<lparr>jpegLen := dq_bytesused k\<rparr>)"
proof (cases "dqbuf k new_v4l2_buffer")
  case (Pair errno qb)
  with assms show ?thesis
    by (simp add: unlocked_def dq_errno_def q_errno_def dq_bytesused_def Lock_def Unlock_def
        Let_def writer_restore)
qed

lemma framePump_pass:
  assumes "unlocked g" "succeeds k"
  shows "framePump (k # ks) g = framePump ks (g\<lparr>jpegLen := dq_bytesused k\<rparr>)"
proof (cases "dqbuf k new_v4l2_buffer")
  case (Pair errno qb)
  with assms show ?thesis
    by (simp add: unlocked_def succeeds_def dq_errno_def q_errno_def dq_bytesused_def Lock_def
        Unlock_def Let_def writer_restore)
qed

text \<open>A run of successful passes leaves nothing behind but the last length.\<close>

lemma framePump_passes:
  assumes "unlocked g" "\<forall>j\<in>set pre. succeeds j"
  shows "framePump (pre @ ks) g = framePump ks (g\<lparr>jpegLen := stored (jpegLen g) pre\<rparr>)"
  using assms
proof (induction pre arbitrary: g)
  case Nil
  then show ?case by (simp add: stored_def)
next
  case (Cons j pre)
  have u: "unlocked (g\<lparr>jpegLen := dq_bytesused j\<rparr>)"
    using Cons.prems(1) by (simp add: unlocked_def)
  have "framePump ((j # pre) @ ks) g = framePump (pre @ ks) (g\<lparr>jpegLen := dq_bytesused j\<rparr>)"
    using Cons.prems framePump_pass [of g j "pre @ ks"] by simp
  also have "\<dots> = framePump ks (g\<lparr>jpegLen := dq_bytesused j\<rparr>
      \<lparr>jpegLen := stored (jpegLen (g\<lparr>jpegLen := dq_bytesused j\<rparr>)) pre\<rparr>)"
    using Cons.IH [OF u] Cons.prems(2) by simp
  finally show ?case by (simp add: stored_def)
qed

lemma framePump_only_passes:
  assumes "unlocked g" "\<forall>j\<in>set pre. succeeds j"
  shows "framePump pre g = (InSelect, g\<lparr>jpegLen := stored (jpegLen g) pre\<rparr>)"
  using framePump_passes [OF assms, of "[]"] by simp

lemma framePump_fails:
  assumes "unlocked g" "\<not> succeeds k"
  shows "\<exists>g'. framePump (k # ks) g = (Returned (Some (failure k)), g') \<and> (\<forall>ks'. framePump (k # ks') g = (Returned (Some (failure k)), g'))"
proof (cases "select_err k")
  case (Some e)
  then show ?thesis by (simp add: failure_def)
next
  case None
  show ?thesis
  proof (cases "dq_errno k = 0")
    case True
    with None assms(2) have q: "q_errno k \<noteq> 0" by (simp add: succeeds_def)
    show ?thesis
      using framePump_qbuf_err [OF assms(1) None True q] None True
      by (simp add: failure_def)
  next
    case False
    show ?thesis
      using framePump_dqbuf_err [OF assms(1) None False] None False
      by (simp add: failure_def)
  qed
qed

lemma framePump_last_update:
  assumes "unlocked g" "\<forall>j\<in>set pre. succeeds j" "select_err k = None" "dq_errno k = 0"
  shows "snd (framePump (pre @ [k]) g) = g\<lparr>jpegLen := dq_bytesused k\<rparr>"
proof -
  let ?h = "g\<lparr>jpegLen := stored (jpegLen g) pre\<rparr>"
  have u: "unlocked ?h" using assms(1) by simp
  have run: "framePump (pre @ [k]) g = framePump [k] ?h"
    by (rule framePump_passes [OF assms(1,2)])
  show ?thesis
  proof (cases "q_errno k = 0")
    case True
    then have "succeeds k" using assms(3,4) by (simp add: succeeds_def)
    from framePump_pass [OF u this, of "[]"] run show ?thesis by (simp del: framePump.simps(2))
  next
    case False
    from framePump_qbuf_err [OF u assms(3,4) False, of "[]"] run show ?thesis
      by (simp del: framePump.simps(2))
  qed
qed

lemma framePump_no_update:
  assumes "no_update_yet ks"
  shows "snd (framePump ks init_globals) = init_globals"
proof (cases ks)
  case Nil
  then show ?thesis by simp
next
  case (Cons k ks')
  show ?thesis
  proof (cases "select_err k")
    case None
    with assms Cons have "dq_errno k \<noteq> 0" by (simp add: no_update_yet_def)
    from framePump_dqbuf_err [OF unlocked_init None this] Cons show ?thesis
      by (simp del: framePump.simps(2))
  next
    case (Some e)
    with Cons show ?thesis by simp
  qed
qed

text \<open>Every \<open>return\<close> of the loop returns an error.\<close>

lemma framePump_never_nil: "fst (framePump ks g) \<noteq> Returned None"
  by (induction ks g rule: framePump.induct)
     (auto split: option.splits prod.splits if_splits simp: Let_def)

text \<open>
  What the two error paths of the loop leave behind: a nonzero errno is returned with
  the mutex unlocked, \<open>jpegLen\<close> holds the length of the last successful dequeue, and a
  later request is answered with the first \<open>jpegLen\<close> bytes of whatever the mapped
  buffer holds when it is served.
\<close>

lemma framePump_failure_keeps_lock_and_length:
  assumes "unlocked g" and "\<forall>j\<in>set pre. succeeds j" and "select_err k = None"
    and "dq_errno k \<noteq> 0 \<or> q_errno k \<noteq> 0"
  shows "\<exists>e g'. framePump (pre @ k # post) g = (Returned (Some e), g') \<and> e \<noteq> 0 \<and>
           unlocked g' \<and>
           jpegLen g' = (if dq_errno k = 0 then dq_bytesused k else stored (jpegLen g) pre) \<and>
           (dq_errno k \<noteq> 0 \<longrightarrow> g' = snd (framePump pre g)) \<and>
           (\<forall>data w. unat (jpegLen g') \<le> length data \<longrightarrow>
              getJPEG data w g' =
                Some (Return, Write (take (unat (jpegLen g')) data)
                                (Header_Set ''Cache-Control'' ''no-store'' w), g'))"
proof -
  let ?h = "g\<lparr>jpegLen := stored (jpegLen g) pre\<rparr>"
  have u: "unlocked ?h" using assms(1) by simp
  have run: "framePump (pre @ k # post) g = framePump (k # post) ?h"
    by (rule framePump_passes [OF assms(1,2)])
  have before: "snd (framePump pre g) = ?h"
    by (simp add: framePump_only_passes [OF assms(1,2)])
  have serve: "\<forall>data w. unat (jpegLen g') \<le> length data \<longrightarrow>
      getJPEG data w g' =
        Some (Return, Write (take (unat (jpegLen g')) data)
                        (Header_Set ''Cache-Control'' ''no-store'' w), g')"
    if "unlocked g'" for g'
    using that by (simp add: getJPEG_unlocked unlocked_def)
  show ?thesis
  proof (cases "dq_errno k = 0")
    case True
    with assms(4) have q: "q_errno k \<noteq> 0" by simp
    let ?g' = "?h\<lparr>jpegLen := dq_bytesused k\<rparr>"
    have "framePump (pre @ k # post) g = (Returned (Some (q_errno k)), ?g')"
      using framePump_qbuf_err [OF u assms(3) True q, of post] run by simp
    moreover have "unlocked ?g'" using u by simp
    ultimately show ?thesis using q True serve [of ?g'] by simp
  next
    case False
    have "framePump (pre @ k # post) g = (Returned (Some (dq_errno k)), ?h)"
      using framePump_dqbuf_err [OF u assms(3) False, of post] run by simp
    then show ?thesis using False u before serve [OF u] by simp
  qed
qed

subsection \<open>\<open>main\<close>\<close>

text \<open>After a successful startup: the state of the process while the server runs.\<close>

lemma main_serving:
  assumes "startup_ok st"
  shows "main st ks None =
     \<lparr>logged = [], exit_code = None,
      defers = [StreamOff (fst (open_reply st)), Munmap, Close (fst (open_reply st))],
      mapped = fst (mmap_reply st), pump = Some (fst (framePump ks init_globals)),
      vars = snd (framePump ks init_globals)\<rparr>"
proof -
  obtain dev oe where o: "open_reply st = (dev, oe)" by (cases "open_reply st")
  obtain data me where m: "mmap_reply st = (data, me)" by (cases "mmap_reply st")
  show ?thesis
    using assms o m
    by (simp add: main_def startup_ok_def Let_def go_framePump_def defer_call_def
        new_process_def split: prod.splits)
qed

text \<open>
  \<open>main\<close> ends in \<open>log.Fatal(http.ListenAndServe(...))\<close>: when the server returns,
  the process exits with the three deferred calls still on the stack.
\<close>

lemma main_exit_skips_deferred:
  assumes "startup_ok st"
  shows "exit_code (main st ks (Some err)) = Some 1 \<and>
         defers (main st ks (Some err)) =
           [StreamOff (fst (open_reply st)), Munmap, Close (fst (open_reply st))]"
proof -
  obtain dev oe where o: "open_reply st = (dev, oe)" by (cases "open_reply st")
  obtain data me where m: "mmap_reply st = (data, me)" by (cases "mmap_reply st")
  show ?thesis
    using assms o m
    by (simp add: main_def startup_ok_def Let_def go_framePump_def defer_call_def
        new_process_def log_Fatal_def split: prod.splits)
qed

subsection \<open>The concrete answers\<close>

lemma pass_simps [simp]:
  "select_err (pass n) = None" "dq_errno (pass n) = 0" "dq_bytesused (pass n) = n"
  "q_errno (pass n) = 0" "succeeds (pass n)"
  by (simp_all add: pass_def dq_errno_def dq_bytesused_def q_errno_def succeeds_def)

lemma select_fails_simps [simp]:
  "select_err (select_fails e) = Some e" "\<not> succeeds (select_fails e)"
  by (simp_all add: select_fails_def succeeds_def)

lemma dqbuf_fails_simps [simp]:
  "select_err (dqbuf_fails e) = None" "dq_errno (dqbuf_fails e) = e"
  "succeeds (dqbuf_fails e) \<longleftrightarrow> e = 0"
  by (simp_all add: dqbuf_fails_def dq_errno_def q_errno_def succeeds_def)

lemma qbuf_fails_simps [simp]:
  "select_err (qbuf_fails n e) = None" "dq_errno (qbuf_fails n e) = 0"
  "dq_bytesused (qbuf_fails n e) = n" "q_errno (qbuf_fails n e) = e"
  "succeeds (qbuf_fails n e) \<longleftrightarrow> e = 0"
  by (simp_all add: qbuf_fails_def dq_errno_def dq_bytesused_def q_errno_def succeeds_def)

lemma failure_simps [simp]:
  "failure (select_fails e) = e" "e \<noteq> 0 \<Longrightarrow> failure (dqbuf_fails e) = e"
  "failure (qbuf_fails n e) = e"
  by (simp_all add: failure_def)

lemma startup_ok_good [simp]: "startup_ok good_startup"
  by (simp add: startup_ok_def good_startup_def)

section \<open>Lemmas about the interleaved program\<close>

subsection \<open>Runs\<close>



lemmas run_defs =
  step_def handler_of_def init_system_def init_globals_def Lock_def Unlock_def RLock_def
  RUnlock_def set_mutex_def set_handler_def slice_to_def Write_def Header_Set_def
  new_response_writer_def

lemma step_pump_event:
  assumes "is_pump_event e"
  shows "step e s = pump_step e s"
  using assms by (cases e) (simp_all add: step_def handler_of_def is_pump_event_def)


lemma pump_step_frame:
  assumes "pump_step e s = Some s'"
  shows "handlers s' = handlers s \<and> buffer s' = buffer s \<and>
         (jpegLen (shared s') \<noteq> jpegLen (shared s) \<longrightarrow> ppc s = AtStore)"
  using assms
  by (cases e)
     (auto simp: set_mutex_def split: if_splits option.splits pump_pc.splits)

subsection \<open>The lock\<close>

lemma filter_update_length:
  assumes "i < length xs"
  shows "length (filter P (xs[i := y])) + (if P (xs ! i) then 1 else 0) =
         length (filter P xs) + (if P y then 1 else 0)"
proof -
  have a: "xs[i := y] = take i xs @ y # drop (Suc i) xs"
    using assms by (rule upd_conv_take_nth_drop)
  have b: "xs = take i xs @ xs ! i # drop (Suc i) xs"
    using assms by (rule id_take_nth_drop)
  have "length (filter P xs) =
      length (filter P (take i xs)) + (if P (xs ! i) then 1 else 0) +
      length (filter P (drop (Suc i) xs))"
    by (subst b) simp
  moreover have "length (filter P (xs[i := y])) =
      length (filter P (take i xs)) + (if P y then 1 else 0) +
      length (filter P (drop (Suc i) xs))"
    by (subst a) simp
  ultimately show ?thesis by simp
qed

lemma lock_inv_init: "lock_inv (init_system d)"
  by (simp add: lock_inv_def init_system_def init_globals_def in_critical_section_def)

lemma pump_step_lock_inv:
  assumes "lock_inv s" "pump_step e s = Some s'"
  shows "lock_inv s'"
  using assms
  by (cases e)
     (auto simp: lock_inv_def in_critical_section_def Lock_def Unlock_def set_mutex_def
       split: if_splits option.splits pump_pc.splits)

lemma handler_step_lock:
  assumes "handler_step e h s = Some (h', s')"
  shows "ppc s' = ppc s \<and> handlers s' = handlers s \<and> buffer s' = buffer s \<and>
         armed s' = armed s \<and> jpegLen (shared s') = jpegLen (shared s) \<and>
         writer (mutex (shared s')) = writer (mutex (shared s)) \<and>
         (holds_rlock h' \<and> \<not> holds_rlock h \<longrightarrow>
            \<not> writer (mutex (shared s)) \<and>
            readers (mutex (shared s')) = readers (mutex (shared s)) + 1) \<and>
         (holds_rlock h' = holds_rlock h \<longrightarrow>
            readers (mutex (shared s')) = readers (mutex (shared s))) \<and>
         (holds_rlock h \<and> \<not> holds_rlock h' \<longrightarrow>
            readers (mutex (shared s')) = readers (mutex (shared s)) - 1)"
  using assms
  by (cases e)
     (auto simp: holds_rlock_def RLock_def RUnlock_def set_mutex_def
       split: if_splits option.splits handler_pc.splits)

lemma step_lock_inv:
  assumes "lock_inv s" "step e s = Some s'"
  shows "lock_inv s'"
proof (cases "handler_of e")
  case None
  show ?thesis
  proof (cases "is_pump_event e")
    case True
    then have "step e s = pump_step e s"
      by (cases e) (simp_all add: step_def handler_of_def is_pump_event_def)
    with assms show ?thesis by (simp add: pump_step_lock_inv)
  next
    case False
    with None consider i b where "e = EvHardware i b" | "e = EvRequest"
      by (cases e) (simp_all add: is_pump_event_def handler_of_def)
    then show ?thesis
    proof cases
      case 1
      with assms show ?thesis by (auto simp: step_def lock_inv_def split: if_splits)
    next
      case 2
      with assms show ?thesis by (auto simp: step_def lock_inv_def holds_rlock_def)
    qed
  qed
next
  case (Some i)
  then have ne: "e \<noteq> EvRequest" "\<And>j b. e \<noteq> EvHardware j b"
    by (auto simp: handler_of_def)
  from assms(2) Some ne obtain h t where
    i: "i < length (handlers s)" and
    hs: "handler_step e (handlers s ! i) s = Some (h, t)" and
    s': "s' = set_handler i h t"
    by (cases e) (auto simp: step_def split: if_splits option.splits)
  note eff = handler_step_lock [OF hs]
  let ?old = "handlers s ! i"
  have cnt: "length (filter holds_rlock ((handlers s)[i := h])) + (if holds_rlock ?old then 1 else 0) =
      length (filter holds_rlock (handlers s)) + (if holds_rlock h then 1 else 0)"
    by (rule filter_update_length [OF i])
  have old_in: "holds_rlock ?old \<Longrightarrow> filter holds_rlock (handlers s) \<noteq> []"
    using i by (metis filter_empty_conv nth_mem)
  show ?thesis
    using assms(1) eff cnt old_in
    unfolding lock_inv_def s' set_handler_def
    by (cases "holds_rlock ?old"; cases "holds_rlock h") (auto split: if_splits)
qed

lemma run_lock_inv:
  assumes "run es s = Some s'" "lock_inv s"
  shows "lock_inv s'"
  using assms
  by (induction es arbitrary: s) (auto split: option.splits intro: step_lock_inv)

text \<open>The write lock and a read lock are never held together.\<close>

lemma mutual_exclusion:
  assumes "run es (init_system d) = Some s"
  shows "\<not> (writer (mutex (shared s)) \<and> 0 < readers (mutex (shared s)))"
  using run_lock_inv [OF assms lock_inv_init]
  by (auto simp: lock_inv_def)

subsection \<open>The buffer\<close>

text \<open>The buffer keeps its length, and only a queued buffer changes.\<close>

lemma step_buffer:
  assumes "step e s = Some s'"
  shows "length (buffer s') = length (buffer s) \<and> (\<not> armed s \<longrightarrow> buffer s' = buffer s)"
proof (cases "handler_of e")
  case None
  show ?thesis
  proof (cases "is_pump_event e")
    case True
    with assms have "pump_step e s = Some s'" by (simp add: step_pump_event)
    from pump_step_frame [OF this] show ?thesis by simp
  next
    case False
    with None consider i b where "e = EvHardware i b" | "e = EvRequest"
      by (cases e) (simp_all add: is_pump_event_def handler_of_def)
    then show ?thesis
      using assms by cases (auto simp: step_def split: if_splits)
  qed
next
  case (Some i)
  then have ne: "e \<noteq> EvRequest" "\<And>j b. e \<noteq> EvHardware j b"
    by (auto simp: handler_of_def)
  from assms Some ne obtain h t where
    hs: "handler_step e (handlers s ! i) s = Some (h, t)" and
    s': "s' = set_handler i h t"
    by (cases e) (auto simp: step_def split: if_splits option.splits)
  from handler_step_lock [OF hs] s' show ?thesis by (simp add: set_handler_def)
qed

subsection \<open>The enqueue follows the unlock\<close>

lemma step_other_keeps_ppc:
  assumes "step e s = Some s'" "\<not> is_pump_event e"
  shows "ppc s' = ppc s"
proof (cases "handler_of e")
  case None
  with assms(2) consider i b where "e = EvHardware i b" | "e = EvRequest"
    by (cases e) (simp_all add: is_pump_event_def handler_of_def)
  then show ?thesis
    using assms(1) by cases (auto simp: step_def split: if_splits)
next
  case (Some i)
  then have ne: "e \<noteq> EvRequest" "\<And>j b. e \<noteq> EvHardware j b"
    by (auto simp: handler_of_def)
  from assms(1) Some ne obtain h t where
    hs: "handler_step e (handlers s ! i) s = Some (h, t)" and
    s': "s' = set_handler i h t"
    by (cases e) (auto simp: step_def split: if_splits option.splits)
  from handler_step_lock [OF hs] s' show ?thesis by (simp add: set_handler_def)
qed



subsection \<open>A stopped loop\<close>

lemma pump_step_stopped: "ppc s = Stopped out \<Longrightarrow> pump_step e s = None"
  by (cases e) simp_all

lemma step_stopped:
  assumes "step e s = Some s'" "ppc s = Stopped out"
  shows "\<not> is_pump_event e \<and> ppc s' = Stopped out \<and>
         jpegLen (shared s') = jpegLen (shared s) \<and>
         writer (mutex (shared s')) = writer (mutex (shared s))"
proof (cases "is_pump_event e")
  case True
  with assms show ?thesis by (simp add: step_pump_event pump_step_stopped)
next
  case False
  note keep = step_other_keeps_ppc [OF assms(1) False]
  show ?thesis
  proof (cases "handler_of e")
    case None
    with False consider i b where "e = EvHardware i b" | "e = EvRequest"
      by (cases e) (simp_all add: is_pump_event_def handler_of_def)
    then show ?thesis
      using assms by cases (auto simp: step_def is_pump_event_def split: if_splits)
  next
    case (Some i)
    then have ne: "e \<noteq> EvRequest" "\<And>j b. e \<noteq> EvHardware j b"
      by (auto simp: handler_of_def)
    from assms(1) Some ne obtain h t where
      hs: "handler_step e (handlers s ! i) s = Some (h, t)" and
      s': "s' = set_handler i h t"
      by (cases e) (auto simp: step_def split: if_splits option.splits)
    from handler_step_lock [OF hs] s' False keep assms(2) show ?thesis
      by (simp add: set_handler_def)
  qed
qed

text \<open>
  Once the loop has stopped it takes no further step, and \<open>jpegLen\<close> and the write
  lock stay as they are, whatever the handlers and the device do.
\<close>

lemma pump_stopped_forever:
  assumes "run es s = Some s'" "ppc s = Stopped out"
  shows "pump_events es = [] \<and> ppc s' = Stopped out \<and>
         jpegLen (shared s') = jpegLen (shared s) \<and>
         writer (mutex (shared s')) = writer (mutex (shared s))"
  using assms
proof (induction es arbitrary: s)
  case Nil
  then show ?case by (simp add: pump_events_def)
next
  case (Cons e es)
  from Cons.prems(1) obtain t where t: "step e s = Some t" and r: "run es t = Some s'"
    by (auto split: option.splits)
  note st = step_stopped [OF t Cons.prems(2)]
  from Cons.IH [OF r] st show ?case by (simp add: pump_events_def)
qed

text \<open>Each of the three device errors stops the loop, with the write lock released.\<close>

lemma device_error_stops_pump:
  assumes "lock_inv s"
  shows "step (EvSelect (Some e)) s = Some s' \<Longrightarrow> ppc s' = Stopped (Returned (Some e))"
    and "e \<noteq> 0 \<Longrightarrow> step (EvDqbuf e qb) s = Some s' \<Longrightarrow>
           \<exists>s''. step EvUnlockErr s' = Some s'' \<and> ppc s'' = Stopped (Returned (Some e)) \<and>
                 \<not> writer (mutex (shared s'')) \<and>
                 jpegLen (shared s'') = jpegLen (shared s)"
    and "e \<noteq> 0 \<Longrightarrow> step (EvQbuf e) s = Some s' \<Longrightarrow>
           ppc s' = Stopped (Returned (Some e)) \<and> \<not> writer (mutex (shared s')) \<and>
           shared s' = shared s"
  using assms
  by (auto simp: step_def handler_of_def lock_inv_def in_critical_section_def Unlock_def
      set_mutex_def split: if_splits)

lemma step_armed_stopped:
  assumes "step e s = Some s'" "ppc s = Stopped out"
  shows "armed s' = armed s"
proof (cases "handler_of e")
  case None
  from step_stopped [OF assms] have "\<not> is_pump_event e" by simp
  with None consider i b where "e = EvHardware i b" | "e = EvRequest"
    by (cases e) (simp_all add: is_pump_event_def handler_of_def)
  then show ?thesis
    using assms by cases (auto simp: step_def split: if_splits)
next
  case (Some i)
  then have ne: "e \<noteq> EvRequest" "\<And>j b. e \<noteq> EvHardware j b"
    by (auto simp: handler_of_def)
  from assms(1) Some ne obtain h t where
    hs: "handler_step e (handlers s ! i) s = Some (h, t)" and
    s': "s' = set_handler i h t"
    by (cases e) (auto simp: step_def split: if_splits option.splits)
  from handler_step_lock [OF hs] s' show ?thesis by (simp add: set_handler_def)
qed

text \<open>
  A loop that stopped with the buffer dequeued (the enqueue failed) leaves the buffer as
  it is for good: nothing queues it again.
\<close>

lemma stopped_unarmed_buffer_stays:
  assumes "run es s = Some s'" "ppc s = Stopped out" "\<not> armed s"
  shows "buffer s' = buffer s \<and> \<not> armed s'"
  using assms
proof (induction es arbitrary: s)
  case Nil
  then show ?case by simp
next
  case (Cons e es)
  from Cons.prems(1) obtain t where t: "step e s = Some t" and r: "run es t = Some s'"
    by (auto split: option.splits)
  have pc: "ppc t = Stopped out" using step_stopped [OF t Cons.prems(2)] by simp
  have ar: "\<not> armed t" using step_armed_stopped [OF t Cons.prems(2)] Cons.prems(3) by simp
  have bf: "buffer t = buffer s" using step_buffer [OF t] Cons.prems(3) by simp
  from Cons.IH [OF r pc ar] bf show ?case by simp
qed

subsection \<open>The length of a slice does not change under the read lock\<close>

lemma slice_inv_init: "slice_inv (init_system d)"
  by (simp add: slice_inv_def init_system_def)

lemma handler_step_slice:
  assumes "handler_step e h s = Some (h', s')" "hpc h' = AtWrite n"
  shows "hpc h = AtWrite n \<or> (n = unat (jpegLen (shared s)) \<and> n \<le> length (buffer s))"
  using assms
  by (cases e)
     (auto simp: slice_to_def split: if_splits option.splits handler_pc.splits)

lemma step_slice_inv:
  assumes "lock_inv s" "slice_inv s" "step e s = Some s'"
  shows "slice_inv s'"
proof (cases "handler_of e")
  case None
  show ?thesis
  proof (cases "is_pump_event e")
    case True
    with assms(3) have ps: "pump_step e s = Some s'" by (simp add: step_pump_event)
    note fr = pump_step_frame [OF ps]
    show ?thesis
    proof (cases "jpegLen (shared s') = jpegLen (shared s)")
      case True
      with fr assms(2) show ?thesis by (simp add: slice_inv_def)
    next
      case False
      with fr have "ppc s = AtStore" by simp
      with assms(1) have "filter holds_rlock (handlers s) = []"
        by (simp add: lock_inv_def in_critical_section_def)
      then have "\<forall>h\<in>set (handlers s). \<not> holds_rlock h"
        by (simp add: filter_empty_conv)
      then have "\<forall>h\<in>set (handlers s). \<forall>n. hpc h \<noteq> AtWrite n"
        by (auto simp: holds_rlock_def)
      with fr show ?thesis by (simp add: slice_inv_def)
    qed
  next
    case False
    with None consider i b where "e = EvHardware i b" | "e = EvRequest"
      by (cases e) (simp_all add: is_pump_event_def handler_of_def)
    then show ?thesis
    proof cases
      case 1
      with assms(2,3) show ?thesis by (auto simp: step_def slice_inv_def split: if_splits)
    next
      case 2
      with assms(2,3) show ?thesis by (auto simp: step_def slice_inv_def)
    qed
  qed
next
  case (Some i)
  then have ne: "e \<noteq> EvRequest" "\<And>j b. e \<noteq> EvHardware j b"
    by (auto simp: handler_of_def)
  from assms(3) Some ne obtain h t where
    i: "i < length (handlers s)" and
    hs: "handler_step e (handlers s ! i) s = Some (h, t)" and
    s': "s' = set_handler i h t"
    by (cases e) (auto simp: step_def split: if_splits option.splits)
  note eff = handler_step_lock [OF hs]
  have old: "handlers s ! i \<in> set (handlers s)" using i by simp
  show ?thesis
    unfolding slice_inv_def
  proof (intro ballI allI impI)
    fix h' n
    assume mem: "h' \<in> set (handlers s')" and w: "hpc h' = AtWrite n"
    from mem s' eff have "h' = h \<or> h' \<in> set (handlers s)"
      using set_update_subset_insert [of "handlers s" i h]
      by (auto simp: set_handler_def)
    then have "n = unat (jpegLen (shared s)) \<and> n \<le> length (buffer s)"
    proof
      assume "h' = h"
      with handler_step_slice [OF hs] w
      have "hpc (handlers s ! i) = AtWrite n \<or>
          (n = unat (jpegLen (shared s)) \<and> n \<le> length (buffer s))" by simp
      with assms(2) old show ?thesis by (auto simp: slice_inv_def)
    next
      assume "h' \<in> set (handlers s)"
      with assms(2) w show ?thesis by (auto simp: slice_inv_def)
    qed
    with eff s' show "n = unat (jpegLen (shared s')) \<and> n \<le> length (buffer s')"
      by (simp add: set_handler_def)
  qed
qed

lemma run_slice_inv:
  assumes "run es s = Some s'" "lock_inv s" "slice_inv s"
  shows "slice_inv s'"
  using assms
proof (induction es arbitrary: s)
  case Nil
  then show ?case by simp
next
  case (Cons e es)
  from Cons.prems(1) obtain t where t: "step e s = Some t" and r: "run es t = Some s'"
    by (auto split: option.splits)
  show ?case
    using Cons.IH [OF r step_lock_inv [OF Cons.prems(2) t] step_slice_inv [OF Cons.prems(2,3) t]] .
qed

text \<open>
  What the read lock does give: the length a handler has evaluated is the current
  \<open>jpegLen\<close> and lies within the buffer, in every reachable state.
\<close>

lemma handler_length_stable:
  assumes "run es (init_system d) = Some s" "h \<in> set (handlers s)" "hpc h = AtWrite n"
  shows "n = unat (jpegLen (shared s)) \<and> n \<le> length (buffer s)"
  using run_slice_inv [OF assms(1) lock_inv_init slice_inv_init] assms(2,3)
  by (auto simp: slice_inv_def)

subsection \<open>Every response carries the header\<close>

lemma handler_step_response:
  assumes "handler_step e h s = Some (h', s')" "response_inv h"
  shows "response_inv h'"
  using assms
  by (cases e)
     (auto simp: response_inv_def Write_def Header_Set_def
       split: if_splits option.splits handler_pc.splits)

lemma step_response_inv:
  assumes "step e s = Some s'" "\<forall>h\<in>set (handlers s). response_inv h"
  shows "\<forall>h\<in>set (handlers s'). response_inv h"
proof (cases "handler_of e")
  case None
  show ?thesis
  proof (cases "is_pump_event e")
    case True
    with assms(1) have "pump_step e s = Some s'" by (simp add: step_pump_event)
    from pump_step_frame [OF this] assms(2) show ?thesis by simp
  next
    case False
    with None consider i b where "e = EvHardware i b" | "e = EvRequest"
      by (cases e) (simp_all add: is_pump_event_def handler_of_def)
    then show ?thesis
    proof cases
      case 1
      with assms(1) have "handlers s' = handlers s"
        by (auto simp: step_def split: if_splits)
      with assms(2) show ?thesis by simp
    next
      case 2
      with assms(1) have
        "handlers s' = handlers s @ [\<lparr>hpc = AtRLock, hw = new_response_writer\<rparr>]"
        by (auto simp: step_def)
      moreover have "response_inv \<lparr>hpc = AtRLock, hw = new_response_writer\<rparr>"
        by (simp add: response_inv_def new_response_writer_def)
      ultimately show ?thesis using assms(2) by auto
    qed
  qed
next
  case (Some i)
  then have ne: "e \<noteq> EvRequest" "\<And>j b. e \<noteq> EvHardware j b"
    by (auto simp: handler_of_def)
  from assms(1) Some ne obtain h t where
    i: "i < length (handlers s)" and
    hs: "handler_step e (handlers s ! i) s = Some (h, t)" and
    s': "s' = set_handler i h t"
    by (cases e) (auto simp: step_def split: if_splits option.splits)
  have "response_inv (handlers s ! i)" using assms(2) i by simp
  from handler_step_response [OF hs this] have h: "response_inv h" .
  from handler_step_lock [OF hs] have "handlers t = handlers s" by simp
  with s' have "set (handlers s') \<subseteq> insert h (set (handlers s))"
    using set_update_subset_insert [of "handlers s" i h] by (simp add: set_handler_def)
  with h assms(2) show ?thesis by auto
qed

text \<open>
  In every interleaving, a handler that has returned normally has sent status 200 with
  \<open>Cache-Control: no-store\<close>.
\<close>

lemma responses_no_store:
  assumes "run es (init_system d) = Some s" "h \<in> set (handlers s)"
    "hpc h = Finished Return"
  shows "status (hw h) = Some 200 \<and> sent_header (hw h) ''Cache-Control'' = Some [''no-store'']"
proof -
  have "\<forall>h\<in>set (handlers s'). response_inv h"
    if "run es s0 = Some s'" "\<forall>h\<in>set (handlers s0). response_inv h" for es s0 s'
    using that
  proof (induction es arbitrary: s0)
    case Nil
    then show ?case by simp
  next
    case (Cons e es)
    from Cons.prems(1) obtain t where t: "step e s0 = Some t" and r: "run es t = Some s'"
      by (auto split: option.splits)
    from Cons.IH [OF r step_response_inv [OF t Cons.prems(2)]] show ?case .
  qed
  from this [OF assms(1)] assms(2) have "response_inv h" by (simp add: init_system_def)
  with assms(3) show ?thesis
    by (auto simp: response_inv_def)
qed

subsection \<open>The steps agree with the functions\<close>

lemma readers_restore: "m\<lparr>readers := Suc (readers m) - Suc 0\<rparr> = m"
  by (cases m) simp

text \<open>
  A handler that runs without interruption does what \<open>getJPEG\<close> says, and an
  uninterrupted successful pass does what \<open>framePump\<close> says.
\<close>

lemma handler_run_is_getJPEG:
  assumes "i < length (handlers s)" and "handlers s ! i = \<lparr>hpc = AtRLock, hw = w\<rparr>"
    and "getJPEG (buffer s) w (shared s) = Some (c, w', g')"
  shows "run ([EvRLock i, EvHeaderSet i, EvSlice i] @ (if c = Return then [EvWrite i] else [])
              @ [EvRUnlock i]) s =
         Some (s\<lparr>shared := g', handlers := (handlers s)[i := \<lparr>hpc = Finished c, hw = w'\<rparr>]\<rparr>)"
proof -
  have nw: "\<not> writer (mutex (shared s))"
    using assms(3) getJPEG_locked [of "shared s" "buffer s" w] by auto
  note g = getJPEG_unlocked [OF nw, of "buffer s" w]
  show ?thesis
  proof (cases "unat (jpegLen (shared s)) \<le> length (buffer s)")
    case True
    with g assms(3) have c: "c = Return"
      and w': "w' = Write (take (unat (jpegLen (shared s))) (buffer s))
                      (Header_Set ''Cache-Control'' ''no-store'' w)"
      and g': "g' = shared s" by auto
    show ?thesis
      using assms(1,2) nw True
      by (simp add: c w' g' step_def handler_of_def RLock_def RUnlock_def set_mutex_def
          set_handler_def slice_to_def readers_restore)
  next
    case False
    with g assms(3) have c: "c = Panic"
      and w': "w' = Header_Set ''Cache-Control'' ''no-store'' w"
      and g': "g' = shared s" by auto
    show ?thesis
      using assms(1,2) nw False
      by (simp add: c w' g' step_def handler_of_def RLock_def RUnlock_def set_mutex_def
          set_handler_def slice_to_def readers_restore)
  qed
qed

lemma pump_run_is_framePump:
  assumes "ppc s = AtSelect" and "unlocked (shared s)" and "succeeds k"
  shows "run [EvSelect None, EvLock, EvDqbuf 0 (snd (dqbuf k new_v4l2_buffer)), EvStore,
              EvUnlock, EvQbuf 0] s =
         Some (s\<lparr>shared := snd (framePump [k] (shared s)), armed := True,
                 pqbuf := snd (dqbuf k new_v4l2_buffer)\<rparr>)"
proof -
  have f: "snd (framePump [k] (shared s)) = (shared s)\<lparr>jpegLen := dq_bytesused k\<rparr>"
    using framePump_pass [OF assms(2,3), of "[]"] by simp
  show ?thesis
    unfolding f
    using assms(1,2)
    by (simp add: step_def handler_of_def Lock_def Unlock_def set_mutex_def unlocked_def
        dq_bytesused_def writer_restore)
qed

section \<open>The claims\<close>

subsection \<open>C1: a request before the first frame\<close>

text \<open>
  Before any update \<open>jpegLen\<close> is zero. A request served then gets an ordinary
  response, status 200 with a body of no bytes: the handler has no other way to answer.
\<close>

theorem getJPEG_empty_body_not_NoFrameYet:
  "map_option (\<lambda>(c, w, g). (c, status w, body w))
     (getJPEG [1, 2, 3] new_response_writer init_globals) = Some (Return, Some 200, [])"
  by (simp add: getJPEG_unlocked init_globals_def Write_def Header_Set_def
      new_response_writer_def)

text \<open>
  Claim C1, as the code has it: a request served before \<open>framePump\<close> has completed
  any update (no answer of the kernel yet, or a first pass that fails in \<open>Select\<close> or
  in the dequeue) is answered with status 200, the header \<open>Cache-Control: no-store\<close>
  and a body of zero bytes, whatever the mapped buffer holds; the variables are left as
  they were. The program has no \<open>NoFrameYet\<close> signal.
\<close>

theorem getJPEG_before_first_update:
  assumes "no_update_yet ks"
  shows "getJPEG data new_response_writer (snd (framePump ks init_globals)) =
     Some (Return,
           \<lparr>header = [''Cache-Control'' \<mapsto> [''no-store'']], status = Some 200,
            sent_header = [''Cache-Control'' \<mapsto> [''no-store'']], body = []\<rparr>,
           init_globals)"
  using framePump_no_update [OF assms]
  by (simp add: getJPEG_unlocked init_globals_def Write_def Header_Set_def
      new_response_writer_def del: framePump.simps)

theorem getJPEG_before_first_update_witness:
  "no_update_yet [\<lparr>select_err = Some 4, dqbuf = (\<lambda>b. (0, b)), qbuf = (\<lambda>b. 0)\<rparr>] \<and>
   getJPEG [7, 7] new_response_writer
     (snd (framePump [\<lparr>select_err = Some 4, dqbuf = (\<lambda>b. (0, b)), qbuf = (\<lambda>b. 0)\<rparr>]
        init_globals)) =
     Some (Return,
           \<lparr>header = [''Cache-Control'' \<mapsto> [''no-store'']], status = Some 200,
            sent_header = [''Cache-Control'' \<mapsto> [''no-store'']], body = []\<rparr>,
           init_globals)"
proof -
  have h: "no_update_yet [\<lparr>select_err = Some 4, dqbuf = (\<lambda>b. (0, b)), qbuf = (\<lambda>b. 0)\<rparr>]"
    by (simp add: no_update_yet_def)
  show ?thesis using h getJPEG_before_first_update [OF h, of "[7, 7]"] by simp
qed

subsection \<open>C2: bytes and length of one update\<close>

text \<open>
  Claim C2, at the run \<open>torn_run\<close>: after the one update the buffer holds
  \<open>[1, 2, 0]\<close> with \<open>jpegLen = 2\<close>; when \<open>framePump\<close> has queued the buffer again
  the handler still holds the read lock, with its slice of length 2 evaluated, and the
  buffer is with the device; the handler completes with status 200 and the body
  \<open>[9, 2]\<close>, the length of the update with a byte the device wrote after it. The
  read lock keeps \<open>framePump\<close> out, not the hardware.
\<close>

theorem torn_read_after_requeue:
  "map_option (\<lambda>s. (buffer s, jpegLen (shared s), armed s))
     (run (take 7 torn_run) (init_system [0, 0, 0])) = Some ([1, 2, 0], 2, False) \<and>
   map_option (\<lambda>s. (map (\<lambda>h. (hpc h, jpegLen (shared s))) (handlers s), armed s))
     (run (take 12 torn_run) (init_system [0, 0, 0])) = Some ([(AtWrite 2, 2)], True) \<and>
   map_option (\<lambda>s. map (\<lambda>h. (hpc h, status (hw h), body (hw h))) (handlers s))
     (run torn_run (init_system [0, 0, 0])) = Some [(Finished Return, Some 200, [9, 2])]"
  by (simp add: torn_run_def run_defs)

subsection \<open>C3: the frame after one update\<close>

text \<open>
  Claim C3, at the run \<open>overwritten_run\<close>: the run has exactly one update. When the
  pass is complete the buffer holds the frame \<open>[1, 2]\<close> of that update, \<open>jpegLen\<close> is
  2, the loop waits in \<open>Select\<close> and the buffer is queued again. The request served
  after that returns normally with status 200 and a body of exactly 2 bytes, but the
  bytes are \<open>[9, 2]\<close>, not the first two bytes written by the update: the device has
  written into the queued buffer in between.
\<close>

theorem read_after_one_update_overwritten:
  "length (filter (\<lambda>e. e = EvStore) overwritten_run) = 1 \<and>
   map_option (\<lambda>s. (take 2 (buffer s), jpegLen (shared s), ppc s, armed s))
     (run (take 8 overwritten_run) (init_system [0, 0, 0])) =
     Some ([1, 2], 2, AtSelect, True) \<and>
   map_option (\<lambda>s. map (\<lambda>h. (hpc h, status (hw h), body (hw h), length (body (hw h))))
                     (handlers s))
     (run overwritten_run (init_system [0, 0, 0])) =
     Some [(Finished Return, Some 200, [9, 2], 2)]"
  by (simp add: overwritten_run_def run_defs)

subsection \<open>C4: the enqueue and the critical section\<close>



subsection \<open>C5: a device error ends the loop\<close>

text \<open>
  The dequeue of the first pass fails with errno 5: the goroutine has returned that
  error, and the process has neither printed anything nor exited.
\<close>

theorem framePump_error_not_fatal:
  "pump (main good_startup [dqbuf_fails 5] None) = Some (Returned (Some 5)) \<and>
   exit_code (main good_startup [dqbuf_fails 5] None) = None \<and>
   logged (main good_startup [dqbuf_fails 5] None) = []"
  using framePump_dqbuf_err [OF unlocked_init, of "dqbuf_fails 5" "[]"]
  by (simp add: main_serving del: framePump.simps)

text \<open>
  Claim C5, as the code has it: after any number of successful passes, a pass in which
  \<open>Select\<close>, the dequeue or the enqueue fails makes \<open>framePump\<close> return that error, and
  no later answer of the kernel is looked at (the result is that of the run ending with
  the failing pass). The error goes nowhere: \<open>main\<close> started the loop with a \<open>go\<close>
  statement, so the process prints nothing and does not exit.
\<close>

theorem framePump_error_ends_loop_and_is_dropped:
  assumes "unlocked g" and "\<forall>j\<in>set pre. succeeds j" and "\<not> succeeds k"
    and "startup_ok st"
  shows "fst (framePump (pre @ k # post) g) = Returned (Some (failure k)) \<and>
         framePump (pre @ k # post) g = framePump (pre @ [k]) g \<and>
         pump (main st (pre @ k # post) None) = Some (Returned (Some (failure k))) \<and>
         exit_code (main st (pre @ k # post) None) = None \<and>
         logged (main st (pre @ k # post) None) = []"
proof -
  have run: "framePump (pre @ ks) g' = framePump ks (g'\<lparr>jpegLen := stored (jpegLen g') pre\<rparr>)"
    if "unlocked g'" for ks g'
    using framePump_passes [OF that assms(2)] .
  have stop: "fst (framePump [k] g') = Returned (Some (failure k)) \<and>
      framePump (k # ks) g' = framePump [k] g'" if "unlocked g'" for ks g'
    using framePump_fails [OF that assms(3), of ks] by auto
  have a: "fst (framePump (pre @ [k]) g') = Returned (Some (failure k)) \<and>
      framePump (pre @ k # post) g' = framePump (pre @ [k]) g'" if "unlocked g'" for g'
  proof -
    let ?h = "g'\<lparr>jpegLen := stored (jpegLen g') pre\<rparr>"
    have u: "unlocked ?h" using that by simp
    have "framePump (pre @ k # post) g' = framePump (k # post) ?h"
      by (rule run [OF that])
    moreover have "framePump (pre @ [k]) g' = framePump [k] ?h"
      by (rule run [OF that])
    ultimately show ?thesis
      using stop [OF u, of post] by (simp del: framePump.simps)
  qed
  show ?thesis
    using a [OF assms(1)] a [OF unlocked_init] main_serving [OF assms(4)]
    by (simp del: framePump.simps)
qed

theorem framePump_error_ends_loop_and_is_dropped_witness:
  "unlocked init_globals \<and> succeeds (pass 2) \<and> \<not> succeeds (qbuf_fails 3 22) \<and>
   startup_ok good_startup \<and>
   fst (framePump ([pass 2] @ qbuf_fails 3 22 # [pass 4]) init_globals) = Returned (Some 22) \<and>
   framePump ([pass 2] @ qbuf_fails 3 22 # [pass 4]) init_globals =
     framePump ([pass 2] @ [qbuf_fails 3 22]) init_globals \<and>
   pump (main good_startup ([pass 2] @ qbuf_fails 3 22 # [pass 4]) None) =
     Some (Returned (Some 22)) \<and>
   exit_code (main good_startup ([pass 2] @ qbuf_fails 3 22 # [pass 4]) None) = None \<and>
   logged (main good_startup ([pass 2] @ qbuf_fails 3 22 # [pass 4]) None) = []"
proof -
  have h2: "\<forall>j\<in>set [pass 2]. succeeds j" by simp
  have h3: "\<not> succeeds (qbuf_fails 3 22)" by simp
  have f: "failure (qbuf_fails 3 22) = 22" by simp
  note c = framePump_error_ends_loop_and_is_dropped [OF unlocked_init h2 h3 startup_ok_good, of "[pass 4]", unfolded f]
  show ?thesis using unlocked_init pass_simps(5) [of 2] h3 startup_ok_good c by blast
qed

subsection \<open>C6: the readers after a failed loop\<close>

text \<open>
  Claim C6, at the run \<open>failed_dequeue_run\<close>: when the loop has ended on the failed
  dequeue it has returned errno 5, the mutex is unlocked, \<open>jpegLen\<close> is still 2, the
  length of the last successful update, and the buffer holds the last captured frame
  \<open>[1, 2]\<close>; so far the claim holds. But the failed pass has left the buffer queued.
  The request served afterwards returns normally with the body \<open>[9, 9]\<close>: not the last
  captured frame, but what the device has written since.
\<close>

theorem read_after_failed_dequeue_overwritten:
  "map_option (\<lambda>s. (ppc s, mutex (shared s), jpegLen (shared s), take 2 (buffer s), armed s))
     (run (take 12 failed_dequeue_run) (init_system [0, 0, 0])) =
     Some (Stopped (Returned (Some 5)), \<lparr>writer = False, readers = 0\<rparr>, 2, [1, 2], True) \<and>
   map_option (\<lambda>s. (ppc s, jpegLen (shared s),
                     map (\<lambda>h. (hpc h, status (hw h), body (hw h))) (handlers s)))
     (run failed_dequeue_run (init_system [0, 0, 0])) =
     Some (Stopped (Returned (Some 5)), 2, [(Finished Return, Some 200, [9, 9])])"
  by (simp add: failed_dequeue_run_def run_defs)

subsection \<open>C7: stopping the loop\<close>

text \<open>
  Whatever the kernel answers, the loop never returns \<open>nil\<close>: it has no clean exit.
\<close>

theorem framePump_never_exits_cleanly: "\<not> (\<exists>ks. fst (framePump ks init_globals) = Returned None)"
  using framePump_never_nil by blast

text \<open>
  Claim C7, as the code has it: \<open>framePump\<close> takes no stop signal. While \<open>Select\<close> has
  not returned, the loop stays in the wait; a wait that \<open>Select\<close> ends with an error
  (an interruption included) makes the loop return that error; and no sequence of
  answers makes it return \<open>nil\<close>.
\<close>

theorem framePump_has_no_stop_signal:
  "framePump [] g = (InSelect, g) \<and>
   (select_err k = Some e \<longrightarrow> framePump (k # ks) g = (Returned (Some e), g)) \<and>
   fst (framePump ks' g) \<noteq> Returned None"
  using framePump_never_nil [of ks' g] by simp

theorem framePump_has_no_stop_signal_witness:
  "framePump [] init_globals = (InSelect, init_globals) \<and>
   select_err (select_fails 4) = Some 4 \<and>
   framePump (select_fails 4 # [pass 1]) init_globals = (Returned (Some 4), init_globals) \<and>
   fst (framePump [pass 1, pass 2] init_globals) \<noteq> Returned None"
  using framePump_has_no_stop_signal [of init_globals "select_fails 4" 4 "[pass 1]" "[pass 1, pass 2]"]
  by (simp del: framePump.simps)

subsection \<open>C8: stopping the stream\<close>

text \<open>
  Claim C8, at the only shutdown the program has: after a successful startup
  \<open>http.ListenAndServe\<close> returns an error (here errno 98). \<open>main\<close> prints that error
  with \<open>log.Fatal\<close> and the process exits with status 1; nothing else is printed, and
  the closure that would issue \<open>VIDIOC_STREAMOFF\<close> is still on the stack of deferred
  calls with \<open>Munmap\<close> and \<open>Close\<close>: the stream is never stopped, so no failure of
  that request is ever logged or passed over.
\<close>

theorem main_exits_without_stopping_stream:
  "exit_code (main good_startup [pass 2] (Some 98)) = Some 1 \<and>
   logged (main good_startup [pass 2] (Some 98)) = [([], 98)] \<and>
   defers (main good_startup [pass 2] (Some 98)) = [StreamOff 3, Munmap, Close 3]"
  by (simp add: main_def good_startup_def Let_def go_framePump_def defer_call_def
      new_process_def log_Fatal_def split: prod.splits)

subsection \<open>C9: the response is not cacheable\<close>

text \<open>
  Claim C9: every run of the handler that completes, on a fresh response writer and
  whatever \<open>jpegLen\<close> and the buffer are, has set \<open>Cache-Control: no-store\<close>, and any
  response it has sent carries that header.
\<close>

theorem getJPEG_no_store:
  assumes "getJPEG data w g = Some (c, w', g')" and "status w = None"
  shows "header w' ''Cache-Control'' = Some [''no-store''] \<and>
         (status w' \<noteq> None \<longrightarrow> sent_header w' ''Cache-Control'' = Some [''no-store''])"
proof -
  have "\<not> writer (mutex g)"
    using assms(1) getJPEG_locked [of g data w] by auto
  from getJPEG_unlocked [OF this, of data w] assms show ?thesis
    by (auto simp: Write_def Header_Set_def split: if_splits)
qed

theorem getJPEG_no_store_witness:
  "getJPEG [5, 6] new_response_writer init_globals =
     Some (Return,
           \<lparr>header = [''Cache-Control'' \<mapsto> [''no-store'']], status = Some 200,
            sent_header = [''Cache-Control'' \<mapsto> [''no-store'']], body = []\<rparr>,
           init_globals) \<and>
   status new_response_writer = None \<and>
   header \<lparr>header = [''Cache-Control'' \<mapsto> [''no-store'']], status = Some 200,
           sent_header = [''Cache-Control'' \<mapsto> [''no-store'']], body = []\<rparr>
     ''Cache-Control'' = Some [''no-store''] \<and>
   sent_header \<lparr>header = [''Cache-Control'' \<mapsto> [''no-store'']], status = Some 200,
           sent_header = [''Cache-Control'' \<mapsto> [''no-store'']], body = ([]::byte list)\<rparr>
     ''Cache-Control'' = Some [''no-store'']"
proof -
  have a: "getJPEG [5, 6] new_response_writer init_globals =
     Some (Return,
           \<lparr>header = [''Cache-Control'' \<mapsto> [''no-store'']], status = Some 200,
            sent_header = [''Cache-Control'' \<mapsto> [''no-store'']], body = []\<rparr>,
           init_globals)"
    by (simp add: getJPEG_unlocked init_globals_def Write_def Header_Set_def
        new_response_writer_def)
  have b: "status new_response_writer = None" by (simp add: new_response_writer_def)
  show ?thesis using a b getJPEG_no_store [OF a b] by simp
qed

subsection \<open>C10: the bounds of the slice\<close>

text \<open>
  Claim C10: \<open>framePump\<close> stores the \<open>bytesused\<close> of a successful dequeue as it is,
  with no check against the length of the mapped buffer; a request served afterwards
  returns normally, with the first \<open>jpegLen\<close> bytes, when that value does not exceed
  the length of the buffer, and panics in the slice expression when it does.
\<close>

theorem getJPEG_in_bounds_iff:
  assumes "unlocked g" and "\<forall>j\<in>set pre. succeeds j" and "select_err k = None"
    and "dq_errno k = 0"
  shows "jpegLen (snd (framePump (pre @ [k]) g)) = dq_bytesused k \<and>
         getJPEG data w (snd (framePump (pre @ [k]) g)) =
           Some (if unat (dq_bytesused k) \<le> length data
                 then (Return, Write (take (unat (dq_bytesused k)) data)
                                 (Header_Set ''Cache-Control'' ''no-store'' w),
                       g\<lparr>jpegLen := dq_bytesused k\<rparr>)
                 else (Panic, Header_Set ''Cache-Control'' ''no-store'' w,
                       g\<lparr>jpegLen := dq_bytesused k\<rparr>))"
proof -
  have "\<not> writer (mutex (g\<lparr>jpegLen := dq_bytesused k\<rparr>))"
    using assms(1) by (simp add: unlocked_def)
  from getJPEG_unlocked [OF this, of data w] framePump_last_update [OF assms]
  show ?thesis by (simp del: framePump.simps)
qed

theorem getJPEG_in_bounds_iff_witness:
  "unlocked init_globals \<and> succeeds (pass 9) \<and> select_err (pass 2) = None \<and>
   dq_errno (pass 2) = 0 \<and>
   jpegLen (snd (framePump ([pass 9] @ [pass 2]) init_globals)) = 2 \<and>
   getJPEG [7, 8, 9] new_response_writer (snd (framePump ([pass 9] @ [pass 2]) init_globals)) =
     Some (Return, Write [7, 8] (Header_Set ''Cache-Control'' ''no-store'' new_response_writer),
           init_globals\<lparr>jpegLen := 2\<rparr>) \<and>
   getJPEG [7] new_response_writer (snd (framePump ([pass 9] @ [pass 2]) init_globals)) =
     Some (Panic, Header_Set ''Cache-Control'' ''no-store'' new_response_writer,
           init_globals\<lparr>jpegLen := 2\<rparr>)"
proof -
  have h2: "\<forall>j\<in>set [pass 9]. succeeds j" by simp
  show ?thesis
    using getJPEG_in_bounds_iff [OF unlocked_init h2, of "pass 2" "[7, 8, 9]" new_response_writer]
      getJPEG_in_bounds_iff [OF unlocked_init h2, of "pass 2" "[7]" new_response_writer] unlocked_init
    by (simp del: framePump.simps)
qed

end
